theory Spec2Isabelle
  imports Main "HOL-Library.AList"
begin

section \<open>Values, attribute mappings, payload objects\<close>

text \<open>
  The attribute values that the source distinguishes: \<open>None\<close>, strings, integers, lists
  and sets (\<open>isinstance(v, list)\<close>, \<open>isinstance(v, set)\<close>, truthiness, \<open>.lower()\<close>).
  List and set elements are strings.
\<close>

datatype val = VNone | VStr string | VInt int | VList "string list" | VSet "string set"

text \<open>
  A keyword dictionary (\<open>**kwargs\<close>, a record read from the importer): a Python dict with
  string keys, kept in insertion order as an association list with distinct keys.
  \<open>AList.update\<close> is \<open>d[k] = v\<close>, \<open>AList.delete\<close> is \<open>del d[k]\<close>, \<open>map_of\<close> is the lookup.
\<close>

type_synonym attrs = "(string \<times> val) list"

datatype error = AttributeError | KeyError | ValueError | TypeError | Duplicated
  | ImporterError string

text \<open>
  Modelled from the spec: the payload class built by \<open>tree.new\<close> is not under src/. A payload
  object carries the attributes it was constructed from (spec 4.4: "the given attributes as
  payload construction arguments"); \<open>getattr(obj, a)\<close> without a default raises
  \<open>AttributeError\<close> when the object has no attribute \<open>a\<close>.
\<close>

datatype obj = Obj attrs

fun getattr :: "obj \<Rightarrow> string \<Rightarrow> error + val" where
  "getattr (Obj kw) a = (case map_of kw a of None \<Rightarrow> Inl AttributeError | Some v \<Rightarrow> Inr v)"

text \<open>Python truthiness of a value (\<open>if val\<close>).\<close>

fun truthy :: "val \<Rightarrow> bool" where
  "truthy VNone = False"
| "truthy (VStr s) = (s \<noteq> [])"
| "truthy (VInt i) = (i \<noteq> 0)"
| "truthy (VList xs) = (xs \<noteq> [])"
| "truthy (VSet S) = (S \<noteq> {})"

section \<open>String operations\<close>

text \<open>\<open>s.startswith(p)\<close> and \<open>s.endswith(p)\<close>.\<close>

definition startswith :: "string \<Rightarrow> string \<Rightarrow> bool" where
  "startswith s p = (take (length p) s = p)"

definition endswith :: "string \<Rightarrow> string \<Rightarrow> bool" where
  "endswith s p = (drop (length s - length p) s = p)"

text \<open>\<open>s.split(d)\<close> for a one-character separator: never empty, one more piece than
  there are separators.\<close>

fun split :: "char \<Rightarrow> string \<Rightarrow> string list" where
  "split d [] = [[]]"
| "split d (c # cs) =
     (if c = d then [] # split d cs
      else (case split d cs of [] \<Rightarrow> [[c]] | w # ws \<Rightarrow> (c # w) # ws))"

text \<open>\<open>d.join(segs)\<close>.\<close>

fun join :: "string \<Rightarrow> string list \<Rightarrow> string" where
  "join d [] = []"
| "join d [x] = x"
| "join d (x # y # ys) = x @ d @ join d (y # ys)"

text \<open>\<open>s.lower()\<close> on ASCII letters; \<open>s.strip()\<close> on ASCII whitespace.\<close>

definition lower_char :: "char \<Rightarrow> char" where
  "lower_char c =
     (let n = (of_char c :: nat) in if 65 \<le> n \<and> n \<le> 90 then char_of (n + 32) else c)"

definition lower :: "string \<Rightarrow> string" where
  "lower s = map lower_char s"

definition is_space :: "char \<Rightarrow> bool" where
  "is_space c = ((of_char c :: nat) \<in> {9, 10, 11, 12, 13, 28, 29, 30, 31, 32})"

definition strip :: "string \<Rightarrow> string" where
  "strip s = rev (dropWhile is_space (rev (dropWhile is_space s)))"

text \<open>\<open>str(n)\<close> for a non-negative integer: its decimal digits.\<close>

definition digit_char :: "nat \<Rightarrow> char" where
  "digit_char d = char_of (48 + d)"

fun str_nat :: "nat \<Rightarrow> string" where
  "str_nat n = (if n < 10 then [digit_char n] else str_nat (n div 10) @ [digit_char (n mod 10)])"

declare str_nat.simps [simp del]

section \<open>The tree, and a subbranch's view of it\<close>

text \<open>
  \<open>tree._nodes\<close>: the store's dict from full key to node, in insertion order. A node is
  represented by its \<open>data\<close> attribute: \<open>None\<close> for a placeholder, otherwise the payload.
\<close>

type_synonym nodes = "(string \<times> obj option) list"

text \<open>The three classes of the source; a narrowed subbranch wraps the collection passed
  to its constructor.\<close>

datatype variant = Base | Off | Narrow "string list"

record subbranch =
  branchname :: string
  subbranchname :: string
  path_delim :: char
  variant :: variant

text \<open>
  Modelled from the spec: \<open>tree.keypath\<close> is not under src/; spec 2 and 4.1: it "joins a branch
  name, subbranch name, and identifier into a delimited composite key". The delimiter is the
  tree's "delimiter character" (spec 3).
\<close>

definition keypath :: "char \<Rightarrow> string list \<Rightarrow> string" where
  "keypath d segs = join [d] segs"

definition parent_keypath :: "subbranch \<Rightarrow> string" where
  "parent_keypath sb = keypath (path_delim sb) [branchname sb, subbranchname sb]"

text \<open>
  A Python set of identifiers is represented by a duplicate-free list; the order in which
  Python enumerates a set is not specified, and no theorem below depends on the order chosen
  here. \<open>priv_idnumbers\<close> is the property \<open>_idnumbers\<close> of the source.
\<close>

definition priv_idnumbers :: "subbranch \<Rightarrow> nodes \<Rightarrow> string list" where
  "priv_idnumbers sb ns =
     remdups (map (\<lambda>key. last (split (path_delim sb) key))
       (filter (\<lambda>key. \<not> endswith key (subbranchname sb)
                     \<and> startswith key (parent_keypath sb @ [path_delim sb]))
               (map fst ns)))"

definition idnumbers :: "subbranch \<Rightarrow> nodes \<Rightarrow> string list" where
  "idnumbers sb ns =
     (case variant sb of Narrow to_narrow \<Rightarrow> remdups to_narrow | _ \<Rightarrow> priv_idnumbers sb ns)"

section \<open>Reading a subbranch\<close>

text \<open>
  Modelled from the spec: \<open>tree.get_node\<close> is not under src/. It gives the node stored at a
  key, and \<open>None\<close> when the key has no node; reading \<open>.data\<close> of that \<open>None\<close> is the
  \<open>AttributeError\<close> that \<open>get\<close> catches.
\<close>

definition get_node :: "nodes \<Rightarrow> string \<Rightarrow> obj option option" where
  "get_node ns key = map_of ns key"

definition node_data :: "obj option option \<Rightarrow> error + obj option" where
  "node_data n = (case n of None \<Rightarrow> Inl AttributeError | Some d \<Rightarrow> Inr d)"

definition get :: "subbranch \<Rightarrow> nodes \<Rightarrow> string \<Rightarrow> error + obj option" where
  "get sb ns idnumber =
     (let node_key = keypath (path_delim sb) [branchname sb, subbranchname sb, idnumber]
      in case node_data (get_node ns node_key) of
           Inl AttributeError \<Rightarrow> Inr None
         | Inl e \<Rightarrow> Inl e
         | Inr d \<Rightarrow> Inr d)"

text \<open>\<open>_nodes[key]\<close>: a missing key raises \<open>KeyError\<close>.\<close>

definition getitem :: "nodes \<Rightarrow> string \<Rightarrow> error + obj option" where
  "getitem ns key = (case map_of ns key of None \<Rightarrow> Inl KeyError | Some n \<Rightarrow> Inr n)"

text \<open>The list comprehension of \<open>get_objects\<close>: every node is looked up before the first
  object is yielded.\<close>

fun lookup_all :: "nodes \<Rightarrow> string list \<Rightarrow> error + obj option list" where
  "lookup_all ns [] = Inr []"
| "lookup_all ns (k # ks) =
     (case getitem ns k of
        Inl e \<Rightarrow> Inl e
      | Inr n \<Rightarrow> (case lookup_all ns ks of Inl e \<Rightarrow> Inl e | Inr r \<Rightarrow> Inr (n # r)))"

text \<open>The common body of \<open>get_objects\<close> and \<open>get_objects_force_all\<close>, which differ in the
  identifiers they start from; a generator is represented by the list of what it yields.\<close>

definition objects_of :: "subbranch \<Rightarrow> nodes \<Rightarrow> string list \<Rightarrow> error + obj list" where
  "objects_of sb ns ids =
     (case lookup_all ns
             (map (\<lambda>key. join [path_delim sb] [branchname sb, subbranchname sb, key]) ids) of
        Inl e \<Rightarrow> Inl e
      | Inr found \<Rightarrow> Inr (map the (filter (\<lambda>d. d \<noteq> None) found)))"

definition get_objects :: "subbranch \<Rightarrow> nodes \<Rightarrow> error + obj list" where
  "get_objects sb ns = objects_of sb ns (idnumbers sb ns)"

definition get_objects_force_all :: "subbranch \<Rightarrow> nodes \<Rightarrow> error + obj list" where
  "get_objects_force_all sb ns = objects_of sb ns (priv_idnumbers sb ns)"

text \<open>\<open>__iter__\<close>, per class.\<close>

definition iter_op :: "subbranch \<Rightarrow> nodes \<Rightarrow> error + obj list" where
  "iter_op sb ns =
     (case variant sb of
        Base \<Rightarrow> get_objects sb ns
      | Off \<Rightarrow> get_objects_force_all sb ns
      | Narrow to_narrow \<Rightarrow> get_objects_force_all sb ns)"

text \<open>\<open>val.lower()\<close>: only strings have the method.\<close>

fun val_lower :: "val \<Rightarrow> error + string" where
  "val_lower (VStr s) = Inr (lower s)"
| "val_lower v = Inl AttributeError"

fun find_loop :: "string \<Rightarrow> string \<Rightarrow> obj list \<Rightarrow> obj list \<Rightarrow> error + obj list" where
  "find_loop a v [] ret = Inr ret"
| "find_loop a v (ob # objs) ret =
     (case getattr ob a of
        Inl e \<Rightarrow> Inl e
      | Inr val \<Rightarrow>
          if truthy val then
            (case val_lower val of
               Inl e \<Rightarrow> Inl e
             | Inr l \<Rightarrow>
                 if startswith l (lower v) then find_loop a v objs (ret @ [ob])
                 else find_loop a v objs ret)
          else find_loop a v objs ret)"

definition find_all :: "subbranch \<Rightarrow> nodes \<Rightarrow> string \<Rightarrow> error + obj list option" where
  "find_all sb ns search_string =
     (case map strip (split CHR '':'' search_string) of
        [a, v] \<Rightarrow>
          (case get_objects sb ns of
             Inl e \<Rightarrow> Inl e
           | Inr objs \<Rightarrow>
               (case find_loop a v objs [] of
                  Inl e \<Rightarrow> Inl e
                | Inr ret \<Rightarrow> Inr (if ret \<noteq> [] then Some ret else None)))
      | _ \<Rightarrow> Inl ValueError)"

section \<open>Synchronization operators\<close>

text \<open>\<open>__sub__\<close> and \<open>__and__\<close>: each subbranch reads its own tree. \<open>SubBranchOff\<close> overrides
  both; the other classes inherit them and use their own \<open>idnumbers\<close>.\<close>

definition sub_op :: "subbranch \<Rightarrow> nodes \<Rightarrow> subbranch \<Rightarrow> nodes \<Rightarrow> string list" where
  "sub_op self ns other ns' =
     (case variant self of
        Off \<Rightarrow> []
      | _ \<Rightarrow> filter (\<lambda>i. i \<notin> set (idnumbers other ns')) (idnumbers self ns))"

definition and_op :: "subbranch \<Rightarrow> nodes \<Rightarrow> subbranch \<Rightarrow> nodes \<Rightarrow> string list" where
  "and_op self ns other ns' =
     (case variant self of
        Off \<Rightarrow> []
      | _ \<Rightarrow> filter (\<lambda>i. i \<in> set (idnumbers other ns')) (idnumbers self ns))"

section \<open>The import run\<close>

text \<open>
  The state that an import run reads and writes: the tree's nodes, the subbranch's \<open>_temp\<close>
  (a \<open>defaultdict(list)\<close>, in insertion order) and \<open>_index\<close>, and the importer instance's own
  state. \<open>events\<close> is not a field of the source: it records, in order, every record put into
  \<open>_temp\<close> and every call of \<open>make\<close> with its arguments, so that claims about which calls
  happen can be stated.
\<close>

datatype event = Buffered string attrs | Made string attrs

record 'i run =
  nodes :: nodes
  temp :: "(string \<times> attrs list) list"
  index :: nat
  imp :: 'i
  events :: "event list"

text \<open>
  Modelled from the spec: the importer classes are not under src/. Spec 4.5: an importer
  provides a record source, a preprocessing hook ("pure function, mapping to mapping-or-null"),
  a duplicate-resolution hook ("existing-object, new-attributes to object-or-null") and
  optionally a completion hook. The hooks are parameters here; the duplicate-resolution hook
  may raise, and may change the tree and the importer's own state.
\<close>

record 'i importer =
  reader_is_generator :: bool
  reader :: "attrs list"
  kwargs_preprocessor :: "attrs \<Rightarrow> attrs option"
  resolve_duplicate ::
    "obj option \<Rightarrow> attrs \<Rightarrow> nodes \<Rightarrow> 'i \<Rightarrow> (error + obj option) \<times> nodes \<times> 'i"
  on_import_complete :: "('i \<Rightarrow> 'i) option"

text \<open>
  Modelled from the spec: \<open>tree.new\<close> is not under src/. Spec 4.4 and 6: it inserts a new node
  at the computed key path, with a payload constructed from the attributes, and fails with the
  duplicate-key error if a node already exists at that key. The payload is built from the
  attribute values at the time of the call; the model does not track that a list value stays
  shared with the caller's dict.
\<close>

definition tree_new :: "subbranch \<Rightarrow> nodes \<Rightarrow> string \<Rightarrow> attrs \<Rightarrow> error + obj \<times> nodes" where
  "tree_new sb ns idnumber kwargs =
     (let key = keypath (path_delim sb) [branchname sb, subbranchname sb, idnumber]
      in if map_of ns key \<noteq> None then Inl Duplicated
         else Inr (Obj kwargs, ns @ [(key, Some (Obj kwargs))]))"

definition make ::
  "'i importer \<Rightarrow> subbranch \<Rightarrow> string \<Rightarrow> attrs \<Rightarrow> 'i run \<Rightarrow> (error + obj option) \<times> 'i run" where
  "make I sb idnumber kwargs s0 =
     (let s = s0\<lparr>events := events s0 @ [Made idnumber kwargs]\<rparr>
      in case tree_new sb (nodes s) idnumber kwargs of
           Inr (ob, ns') \<Rightarrow> (Inr (Some ob), s\<lparr>nodes := ns'\<rparr>)
         | Inl Duplicated \<Rightarrow>
             (case get sb (nodes s) idnumber of
                Inl e \<Rightarrow> (Inl e, s)
              | Inr existing \<Rightarrow>
                  (case resolve_duplicate I existing kwargs (nodes s) (imp s) of
                     (r, ns', i') \<Rightarrow> (r, s\<lparr>nodes := ns', imp := i'\<rparr>)))
         | Inl e \<Rightarrow> (Inl e, s))"

fun is_list :: "val \<Rightarrow> bool" where
  "is_list (VList xs) = True"
| "is_list v = False"

fun is_set :: "val \<Rightarrow> bool" where
  "is_set (VSet S) = True"
| "is_set v = False"

definition has_list_value :: "attrs \<Rightarrow> bool" where
  "has_list_value kwargs = (length (filter (\<lambda>(k, v). is_list v \<or> is_set v) kwargs) > 0)"

text \<open>\<open>self._temp[idnumber].append(kwargs)\<close> on a \<open>defaultdict(list)\<close>.\<close>

definition temp_append ::
  "string \<Rightarrow> attrs \<Rightarrow> (string \<times> attrs list) list \<Rightarrow> (string \<times> attrs list) list" where
  "temp_append idnumber kwargs t =
     (case map_of t idnumber of
        None \<Rightarrow> t @ [(idnumber, [kwargs])]
      | Some l \<Rightarrow> AList.update idnumber (l @ [kwargs]) t)"

text \<open>
  The identifier of a preprocessed record. Identifiers are strings (spec 3); a record whose
  \<open>'idnumber'\<close> is not a string is rejected here, where the source would fail later in the
  key-path code that is not under src/.
\<close>

definition process_kwargs ::
  "'i importer \<Rightarrow> subbranch \<Rightarrow> attrs \<Rightarrow> 'i run \<Rightarrow> (error + unit) \<times> 'i run" where
  "process_kwargs I sb kwargs_in s =
     (case kwargs_preprocessor I kwargs_in of
        None \<Rightarrow> (Inr (), s)
      | Some kwargs \<Rightarrow>
          (let has_list = has_list_value kwargs
           in case (case map_of kwargs ''idnumber'' of
                      None \<Rightarrow> Inr (str_nat (index s), kwargs, s\<lparr>index := index s + 1\<rparr>)
                    | Some (VStr i) \<Rightarrow> Inr (i, AList.delete ''idnumber'' kwargs, s)
                    | Some v \<Rightarrow> Inl TypeError) of
                Inl e \<Rightarrow> (Inl e, s)
              | Inr (idnumber, kwargs', s1) \<Rightarrow>
                  if has_list then
                    (Inr (), s1\<lparr>temp := temp_append idnumber kwargs' (temp s1),
                                events := events s1 @ [Buffered idnumber kwargs']\<rparr>)
                  else
                    (case make I sb idnumber kwargs' s1 of
                       (Inl e, s2) \<Rightarrow> (Inl e, s2)
                     | (Inr ob, s2) \<Rightarrow> (Inr (), s2))))"

text \<open>\<open>for kwargs_in in reader: self.process_kwargs(**kwargs_in)\<close>; an exception ends the run.\<close>

fun drain :: "'i importer \<Rightarrow> subbranch \<Rightarrow> attrs list \<Rightarrow> 'i run \<Rightarrow> (error + unit) \<times> 'i run" where
  "drain I sb [] s = (Inr (), s)"
| "drain I sb (kwargs_in # rest) s =
     (case process_kwargs I sb kwargs_in s of
        (Inl e, s') \<Rightarrow> (Inl e, s')
      | (Inr u, s') \<Rightarrow> drain I sb rest s')"

text \<open>
  The body of the loop over a fragment's list-valued keys: \<open>prepared[list_key]\<close> is created
  empty if absent, then \<open>.extend\<close> is called on it, a method that only a list has.
\<close>

definition extend_key :: "string \<Rightarrow> string list \<Rightarrow> attrs \<Rightarrow> error + attrs" where
  "extend_key list_key xs prepared =
     (let prepared' = (if map_of prepared list_key = None
                       then AList.update list_key (VList []) prepared else prepared)
      in case map_of prepared' list_key of
           Some (VList ys) \<Rightarrow> Inr (AList.update list_key (VList (ys @ xs)) prepared')
         | _ \<Rightarrow> Inl AttributeError)"

text \<open>The same for set-valued keys and \<open>.update\<close>, a method that, of the values here, only
  a set has.\<close>

definition update_key :: "string \<Rightarrow> string set \<Rightarrow> attrs \<Rightarrow> error + attrs" where
  "update_key set_key S prepared =
     (let prepared' = (if map_of prepared set_key = None
                       then AList.update set_key (VSet {}) prepared else prepared)
      in case map_of prepared' set_key of
           Some (VSet T) \<Rightarrow> Inr (AList.update set_key (VSet (T \<union> S)) prepared')
         | _ \<Rightarrow> Inl AttributeError)"

fun merge_lists :: "attrs \<Rightarrow> attrs \<Rightarrow> error + attrs" where
  "merge_lists [] prepared = Inr prepared"
| "merge_lists ((k, v) # item) prepared =
     (case v of
        VList xs \<Rightarrow>
          (case extend_key k xs prepared of
             Inl e \<Rightarrow> Inl e
           | Inr p \<Rightarrow> merge_lists item p)
      | _ \<Rightarrow> merge_lists item prepared)"

fun merge_sets :: "attrs \<Rightarrow> attrs \<Rightarrow> error + attrs" where
  "merge_sets [] prepared = Inr prepared"
| "merge_sets ((k, v) # item) prepared =
     (case v of
        VSet S \<Rightarrow>
          (case update_key k S prepared of
             Inl e \<Rightarrow> Inl e
           | Inr p \<Rightarrow> merge_sets item p)
      | _ \<Rightarrow> merge_sets item prepared)"

text \<open>What is left of a fragment after both loops have deleted the keys they handled, and
  \<open>prepared.update(item)\<close> with it.\<close>

definition scalars :: "attrs \<Rightarrow> attrs" where
  "scalars item = filter (\<lambda>(k, v). \<not> is_list v \<and> \<not> is_set v) item"

definition dict_update :: "attrs \<Rightarrow> attrs \<Rightarrow> attrs" where
  "dict_update prepared item = fold (\<lambda>(k, v). AList.update k v) item prepared"

definition merge_item :: "attrs \<Rightarrow> attrs \<Rightarrow> error + attrs" where
  "merge_item prepared item =
     (case merge_lists item prepared of
        Inl e \<Rightarrow> Inl e
      | Inr p1 \<Rightarrow>
          (case merge_sets item p1 of
             Inl e \<Rightarrow> Inl e
           | Inr p2 \<Rightarrow> Inr (dict_update p2 (scalars item))))"

text \<open>\<open>for item in kwargs_list\<close>: the body ends with the call of \<open>make\<close> (line 155 of the
  source is inside this loop).\<close>

fun pos_items ::
  "'i importer \<Rightarrow> subbranch \<Rightarrow> string \<Rightarrow> attrs list \<Rightarrow> attrs \<Rightarrow> 'i run \<Rightarrow> (error + attrs) \<times> 'i run"
where
  "pos_items I sb idnumber [] prepared s = (Inr prepared, s)"
| "pos_items I sb idnumber (item # kwargs_list) prepared s =
     (case merge_item prepared item of
        Inl e \<Rightarrow> (Inl e, s)
      | Inr p \<Rightarrow>
          (case make I sb idnumber p s of
             (Inl e, s') \<Rightarrow> (Inl e, s')
           | (Inr ob, s') \<Rightarrow> pos_items I sb idnumber kwargs_list p s'))"

text \<open>\<open>for idnumber in self._temp.keys()\<close>, with \<open>prepared = {}\<close> at the start of each round.\<close>

fun pos_idnumbers ::
  "'i importer \<Rightarrow> subbranch \<Rightarrow> (string \<times> attrs list) list \<Rightarrow> 'i run \<Rightarrow> (error + unit) \<times> 'i run"
where
  "pos_idnumbers I sb [] s = (Inr (), s)"
| "pos_idnumbers I sb ((idnumber, kwargs_list) # rest) s =
     (case pos_items I sb idnumber kwargs_list [] s of
        (Inl e, s') \<Rightarrow> (Inl e, s')
      | (Inr p, s') \<Rightarrow> pos_idnumbers I sb rest s')"

text \<open>\<open>__pos__\<close>: both shapes of the record source are drained by the same loop.\<close>

definition pos_op :: "'i importer \<Rightarrow> subbranch \<Rightarrow> 'i run \<Rightarrow> (error + unit) \<times> 'i run" where
  "pos_op I sb s0 =
     (let s = s0\<lparr>temp := [], index := 0\<rparr>
      in case (if reader_is_generator I then drain I sb (reader I) s
               else drain I sb (reader I) s) of
           (Inl e, s1) \<Rightarrow> (Inl e, s1)
         | (Inr u, s1) \<Rightarrow>
             (case (if length (temp s1) > 0 then pos_idnumbers I sb (temp s1) s1
                    else (Inr (), s1)) of
                (Inl e, s2) \<Rightarrow> (Inl e, s2)
              | (Inr u, s2) \<Rightarrow>
                  (Inr (), (case on_import_complete I of
                              None \<Rightarrow> s2
                            | Some hook \<Rightarrow> s2\<lparr>imp := hook (imp s2)\<rparr>))))"

section \<open>Specification-side definitions and example inputs\<close>

text \<open>A subbranch \<open>s\<close> of branch \<open>b\<close> with delimiter \<open>/\<close>, and two trees that hold objects
  for it.\<close>

definition ex_sb :: subbranch where
  "ex_sb = \<lparr>branchname = ''b'', subbranchname = ''s'', path_delim = CHR ''/'', variant = Base\<rparr>"

definition john :: obj where "john = Obj [(''name'', VStr ''John'')]"
definition joanna :: obj where "joanna = Obj [(''name'', VStr ''Joanna'')]"
definition mark :: obj where "mark = Obj [(''name'', VStr ''Mark'')]"

definition ex_tree :: nodes where
  "ex_tree = [(''b'', None), (''b/s'', None),
              (''b/s/1'', Some john), (''b/s/2'', Some joanna), (''b/s/3'', Some mark)]"

definition ex_tree2 :: nodes where
  "ex_tree2 = [(''b'', None), (''b/s'', None), (''b/s/2'', Some joanna), (''b/s/4'', None)]"

text \<open>
  The identifier set as spec 3 words it, for comparison with \<open>priv_idnumbers\<close>: every key of
  the tree that starts with the parent key path plus delimiter and is not exactly the
  subbranch's own key, reduced to its trailing segment.
\<close>

definition idnumbers_spec :: "subbranch \<Rightarrow> nodes \<Rightarrow> string set" where
  "idnumbers_spec sb ns =
     set (map (\<lambda>key. last (split (path_delim sb) key))
            (filter (\<lambda>key. startswith key (parent_keypath sb @ [path_delim sb])
                          \<and> key \<noteq> parent_keypath sb)
                    (map fst ns)))"

text \<open>A tree with an object whose identifier ends with the subbranch's name.\<close>

definition ex_tree_suffix :: nodes where
  "ex_tree_suffix = [(''b'', None), (''b/s'', None), (''b/s/ids'', Some mark)]"

text \<open>The tree of spec 8 with identifiers 1, 2, 3, 7 and 9, and the subbranch narrowed to
  3 and 7.\<close>

definition person :: "string \<Rightarrow> obj" where
  "person n = Obj [(''name'', VStr n)]"

definition ex_tree5 :: nodes where
  "ex_tree5 = [(''b'', None), (''b/s'', None),
               (''b/s/1'', Some (person ''Ann'')), (''b/s/2'', Some (person ''Bob'')),
               (''b/s/3'', Some (person ''Cyd'')), (''b/s/7'', Some (person ''Dan'')),
               (''b/s/9'', Some (person ''Eve''))]"

definition ex_narrow :: subbranch where
  "ex_narrow = ex_sb\<lparr>variant := Narrow [''3'', ''7'']\<rparr>"

text \<open>An importer whose duplicate-resolution hook keeps the existing object and records
  each of its invocations, and a run state over the example tree.\<close>

definition ex_importer :: "(obj option \<times> attrs) list importer" where
  "ex_importer =
     \<lparr>reader_is_generator = True, reader = [], kwargs_preprocessor = Some,
      resolve_duplicate = (\<lambda>existing kwargs ns calls. (Inr existing, ns, calls @ [(existing, kwargs)])),
      on_import_complete = None\<rparr>"

definition ex_run :: "(obj option \<times> attrs) list run" where
  "ex_run = \<lparr>nodes = ex_tree, temp = [], index = 0, imp = [], events = []\<rparr>"

text \<open>
  The result of \<open>find_all\<close> as spec 4.2 words it, for comparison with the source's loop: the
  objects whose named attribute, lower-cased, starts with the lower-cased value, in order, or
  \<open>None\<close> if there are none.
\<close>

definition find_all_spec :: "string \<Rightarrow> string \<Rightarrow> obj list \<Rightarrow> obj list option" where
  "find_all_spec a v objs =
     (let ret = filter (\<lambda>ob. case getattr ob a of
                               Inr (VStr s) \<Rightarrow> startswith (lower s) (lower v)
                             | _ \<Rightarrow> False) objs
      in if ret = [] then None else Some ret)"

text \<open>Trees with an object whose \<open>name\<close> is empty, one that has no \<open>name\<close>, and one whose
  \<open>name\<close> is \<open>None\<close>.\<close>

definition ex_tree_blank :: nodes where
  "ex_tree_blank = [(''b'', None), (''b/s'', None), (''b/s/1'', Some (Obj [(''name'', VStr [])]))]"

definition ex_tree_noattr :: nodes where
  "ex_tree_noattr = [(''b'', None), (''b/s'', None),
                     (''b/s/1'', Some john), (''b/s/2'', Some (Obj [(''age'', VInt 5)]))]"

definition ex_tree_falsy :: nodes where
  "ex_tree_falsy = [(''b'', None), (''b/s'', None),
                    (''b/s/1'', Some john), (''b/s/2'', Some (Obj [(''name'', VNone)]))]"

text \<open>The identifier and the attribute mapping that an event carries.\<close>

fun event_id :: "event \<Rightarrow> string" where
  "event_id (Buffered i kwargs) = i"
| "event_id (Made i kwargs) = i"

fun event_attrs :: "event \<Rightarrow> attrs" where
  "event_attrs (Buffered i kwargs) = kwargs"
| "event_attrs (Made i kwargs) = kwargs"

text \<open>The preprocessed records of a run, in read order: those that the preprocessing hook
  did not discard.\<close>

definition kept :: "'i importer \<Rightarrow> attrs list \<Rightarrow> attrs list" where
  "kept I records = List.map_filter (kwargs_preprocessor I) records"

text \<open>
  The identifiers as spec 4.4 step 3 words it, for comparison with \<open>process_kwargs\<close>: a record
  that specifies one explicitly uses that value; otherwise a fresh sequence number, counting
  up from the given start.
\<close>

fun expected_ids :: "nat \<Rightarrow> attrs list \<Rightarrow> val list" where
  "expected_ids n [] = []"
| "expected_ids n (kwargs # rest) =
     (case map_of kwargs ''idnumber'' of
        None \<Rightarrow> VStr (str_nat n) # expected_ids (Suc n) rest
      | Some v \<Rightarrow> v # expected_ids n rest)"

text \<open>A run state with a stale counter, three scalar-only records without identifiers, and
  the three fragments of spec 8 for identifier 5.\<close>

definition ex_run0 :: "(obj option \<times> attrs) list run" where
  "ex_run0 = \<lparr>nodes = [(''b'', None), (''b/s'', None)], temp = [], index = 7, imp = [],
              events = []\<rparr>"

definition ex_records3 :: "attrs list" where
  "ex_records3 = [[(''name'', VStr ''Ann'')], [(''name'', VStr ''Bob'')], [(''name'', VStr ''Cyd'')]]"

definition ex_importer3 :: "(obj option \<times> attrs) list importer" where
  "ex_importer3 = ex_importer\<lparr>reader := ex_records3\<rparr>"

definition ex_fragments :: "attrs list" where
  "ex_fragments =
     [[(''idnumber'', VStr ''5''), (''tags'', VList [''a''])],
      [(''idnumber'', VStr ''5''), (''tags'', VList [''b'']), (''name'', VStr ''x'')],
      [(''idnumber'', VStr ''5''), (''tags'', VList [''c'']), (''name'', VStr ''y'')]]"

definition ex_importer_frag :: "(obj option \<times> attrs) list importer" where
  "ex_importer_frag = ex_importer\<lparr>reader := ex_fragments\<rparr>"

section \<open>Synchronization operators: properties\<close>

text \<open>
  C4. For base-variant subbranches \<open>A\<close> and \<open>B\<close>, each over its own tree, what \<open>A - B\<close>, \<open>B - A\<close>
  and \<open>A & B\<close> yield is, as sets, pairwise disjoint and together exactly the identifiers of
  \<open>A\<close> and of \<open>B\<close>; \<open>A - A\<close> yields nothing and \<open>A & A\<close> yields the identifiers of \<open>A\<close>.
\<close>

theorem sync_partition:
  assumes "variant A = Base" and "variant B = Base"
  shows "set (sub_op A nsA B nsB) \<inter> set (sub_op B nsB A nsA) = {}
       \<and> set (sub_op A nsA B nsB) \<inter> set (and_op A nsA B nsB) = {}
       \<and> set (sub_op B nsB A nsA) \<inter> set (and_op A nsA B nsB) = {}
       \<and> set (sub_op A nsA B nsB) \<union> set (sub_op B nsB A nsA) \<union> set (and_op A nsA B nsB)
           = set (idnumbers A nsA) \<union> set (idnumbers B nsB)
       \<and> sub_op A nsA A nsA = []
       \<and> set (and_op A nsA A nsA) = set (idnumbers A nsA)"
  using assms by (auto simp: sub_op_def and_op_def)

theorem sync_partition_witness:
  "variant ex_sb = Base
   \<and> set (sub_op ex_sb ex_tree ex_sb ex_tree2) \<inter> set (sub_op ex_sb ex_tree2 ex_sb ex_tree) = {}
   \<and> set (sub_op ex_sb ex_tree ex_sb ex_tree2) \<union> set (sub_op ex_sb ex_tree2 ex_sb ex_tree)
        \<union> set (and_op ex_sb ex_tree ex_sb ex_tree2)
      = set (idnumbers ex_sb ex_tree) \<union> set (idnumbers ex_sb ex_tree2)
   \<and> sub_op ex_sb ex_tree ex_sb ex_tree = []"
proof -
  have b: "variant ex_sb = Base" by (simp add: ex_sb_def)
  from sync_partition [OF b b, of ex_tree ex_tree2] b show ?thesis by blast
qed

text \<open>
  C5. For an excluded-variant subbranch \<open>X\<close>, \<open>X - other\<close> and \<open>X & other\<close> yield nothing,
  whatever the other subbranch and whatever the two trees hold.
\<close>

theorem off_operators_empty:
  assumes "variant X = Off"
  shows "sub_op X ns other ns' = [] \<and> and_op X ns other ns' = []"
  using assms by (simp add: sub_op_def and_op_def)

theorem off_operators_empty_witness:
  "variant (ex_sb\<lparr>variant := Off\<rparr>) = Off
   \<and> sub_op (ex_sb\<lparr>variant := Off\<rparr>) ex_tree ex_sb ex_tree2 = []
   \<and> and_op (ex_sb\<lparr>variant := Off\<rparr>) ex_tree ex_sb ex_tree2 = []"
proof -
  have off: "variant (ex_sb\<lparr>variant := Off\<rparr>) = Off" by simp
  from off_operators_empty [OF off, of ex_tree ex_sb ex_tree2] off show ?thesis by blast
qed

section \<open>Lookup of one identifier\<close>

text \<open>
  C7. \<open>get\<close> never raises. For an identifier with no node at its full key path it returns
  \<open>None\<close>; for an identifier whose node exists it returns the node's payload.
\<close>

theorem get_never_raises:
  "(get_node ns (keypath (path_delim sb) [branchname sb, subbranchname sb, i]) = None
      \<longrightarrow> get sb ns i = Inr None)
   \<and> (\<forall>d. get_node ns (keypath (path_delim sb) [branchname sb, subbranchname sb, i]) = Some d
      \<longrightarrow> get sb ns i = Inr d)
   \<and> (\<forall>e. get sb ns i \<noteq> Inl e)"
  by (auto simp: get_def node_data_def Let_def split: option.splits)

theorem get_never_raises_witness:
  "get_node ex_tree (keypath (path_delim ex_sb) [branchname ex_sb, subbranchname ex_sb, ''missing-id''])
     = None
   \<and> get ex_sb ex_tree ''missing-id'' = Inr None
   \<and> get_node ex_tree (keypath (path_delim ex_sb) [branchname ex_sb, subbranchname ex_sb, ''2''])
     = Some (Some joanna)
   \<and> get ex_sb ex_tree ''2'' = Inr (Some joanna)"
proof -
  have miss: "get_node ex_tree
      (keypath (path_delim ex_sb) [branchname ex_sb, subbranchname ex_sb, ''missing-id'']) = None"
    by (simp add: get_node_def keypath_def ex_sb_def ex_tree_def)
  have hit: "get_node ex_tree
      (keypath (path_delim ex_sb) [branchname ex_sb, subbranchname ex_sb, ''2'']) = Some (Some joanna)"
    by (simp add: get_node_def keypath_def ex_sb_def ex_tree_def)
  from get_never_raises [of ex_tree ex_sb "''missing-id''"] miss
  have "get ex_sb ex_tree ''missing-id'' = Inr None" by blast
  moreover from get_never_raises [of ex_tree ex_sb "''2''"] hit
  have "get ex_sb ex_tree ''2'' = Inr (Some joanna)" by blast
  ultimately show ?thesis using miss hit by blast
qed

section \<open>The identifier set\<close>

text \<open>
  The subbranch's own key never passes the prefix test of \<open>_idnumbers\<close>, so the set that
  spec 3 describes is the scan by prefix alone: the suffix test is not needed to keep the own
  key out.
\<close>

lemma own_key_fails_prefix:
  "\<not> startswith (parent_keypath sb) (parent_keypath sb @ [path_delim sb])"
  by (simp add: startswith_def)

lemma idnumbers_spec_prefix:
  "idnumbers_spec sb ns =
     (\<lambda>key. last (split (path_delim sb) key)) `
       {key \<in> fst ` set ns. startswith key (parent_keypath sb @ [path_delim sb])}"
  unfolding idnumbers_spec_def using own_key_fails_prefix [of sb] by auto

text \<open>
  C2. The identifier set should leave out only the subbranch's own key. The source tests
  \<open>not key.endswith(subbranchname)\<close> instead: in subbranch \<open>s\<close> of branch \<open>b\<close>, the node
  \<open>b/s/ids\<close> is missing from \<open>idnumbers\<close>, where the set that the spec describes has \<open>ids\<close>,
  although \<open>get\<close> finds the object under that identifier.
\<close>

theorem idnumbers_hides_child:
  "set (idnumbers ex_sb ex_tree_suffix) = {}
   \<and> idnumbers_spec ex_sb ex_tree_suffix = {''ids''}
   \<and> get ex_sb ex_tree_suffix ''ids'' = Inr (Some mark)"
  by (auto simp add: idnumbers_def priv_idnumbers_def idnumbers_spec_def get_def get_node_def
      node_data_def ex_sb_def ex_tree_suffix_def parent_keypath_def keypath_def startswith_def
      endswith_def)

section \<open>The narrowed subbranch\<close>

lemma lookup_all_found:
  "\<forall>k \<in> set ks. map_of ns k \<noteq> None \<Longrightarrow> lookup_all ns ks = Inr (map (\<lambda>k. the (map_of ns k)) ks)"
  by (induction ks) (auto simp: getitem_def)

lemma lookup_all_missing:
  "\<exists>k \<in> set ks. map_of ns k = None \<Longrightarrow> lookup_all ns ks = Inl KeyError"
proof (induction ks)
  case Nil
  then show ?case by simp
next
  case (Cons k ks)
  show ?case
  proof (cases "map_of ns k")
    case None
    then show ?thesis by (simp add: getitem_def)
  next
    case (Some n)
    with Cons.prems have "\<exists>k \<in> set ks. map_of ns k = None" by auto
    with Cons.IH Some show ?thesis by (simp add: getitem_def)
  qed
qed

text \<open>
  C3 as stated fails in its second half: \<open>SubBranchNarrow.__iter__\<close> yields from
  \<open>get_objects_force_all\<close>, which scans the store. Narrowed to 3 and 7, iteration still yields
  the payloads of 1, 2 and 9.
\<close>

theorem narrow_iter_counterexample:
  "set (idnumbers ex_narrow ex_tree5) = {''3'', ''7''}
   \<and> get_objects ex_narrow ex_tree5 = Inr [person ''Cyd'', person ''Dan'']
   \<and> iter_op ex_narrow ex_tree5
       = Inr [person ''Ann'', person ''Bob'', person ''Cyd'', person ''Dan'', person ''Eve'']"
  by (simp add: idnumbers_def priv_idnumbers_def get_objects_def get_objects_force_all_def
      iter_op_def objects_of_def getitem_def ex_narrow_def ex_sb_def ex_tree5_def
      parent_keypath_def keypath_def startswith_def endswith_def) 

text \<open>
  C3, amended. For a subbranch narrowed to a collection \<open>C\<close>: \<open>idnumbers\<close> is \<open>set(C)\<close>
  whatever the store holds; \<open>get_objects\<close> yields exactly the payloads stored for the
  identifiers of \<open>C\<close> when each of them has a node, and raises \<open>KeyError\<close> when one has
  none; the Difference and Intersection operators start from \<open>C\<close>; iteration over the
  subbranch yields what iteration over the unnarrowed subbranch yields.
\<close>

theorem narrow_reads:
  assumes "variant sb = Narrow C"
  shows "set (idnumbers sb ns) = set C
       \<and> ((\<forall>i \<in> set C. map_of ns (join [path_delim sb] [branchname sb, subbranchname sb, i]) \<noteq> None)
            \<longrightarrow> (\<exists>objs. get_objects sb ns = Inr objs
                 \<and> set objs = {d. \<exists>i \<in> set C.
                      map_of ns (join [path_delim sb] [branchname sb, subbranchname sb, i])
                        = Some (Some d)}))
       \<and> ((\<exists>i \<in> set C. map_of ns (join [path_delim sb] [branchname sb, subbranchname sb, i]) = None)
            \<longrightarrow> get_objects sb ns = Inl KeyError)
       \<and> set (sub_op sb ns other ns') = set C - set (idnumbers other ns')
       \<and> set (and_op sb ns other ns') = set C \<inter> set (idnumbers other ns')
       \<and> iter_op sb ns = iter_op (sb\<lparr>variant := Base\<rparr>) ns"
proof -
  let ?key = "\<lambda>i. join [path_delim sb] [branchname sb, subbranchname sb, i]"
  have ids: "idnumbers sb ns = remdups C"
    using assms by (simp add: idnumbers_def)
  have found: "\<exists>objs. get_objects sb ns = Inr objs
                 \<and> set objs = {d. \<exists>i \<in> set C. map_of ns (?key i) = Some (Some d)}"
    if all: "\<forall>i \<in> set C. map_of ns (?key i) \<noteq> None"
  proof -
    from all have "\<forall>k \<in> set (map ?key (remdups C)). map_of ns k \<noteq> None" by simp
    from lookup_all_found [OF this]
    have "get_objects sb ns
            = Inr (map the (filter (\<lambda>d. d \<noteq> None)
                (map (\<lambda>k. the (map_of ns k)) (map ?key (remdups C)))))"
      by (simp add: get_objects_def objects_of_def ids)
    moreover have "set (map the (filter (\<lambda>d. d \<noteq> None)
                (map (\<lambda>k. the (map_of ns k)) (map ?key (remdups C)))))
             = {d. \<exists>i \<in> set C. map_of ns (?key i) = Some (Some d)}"
      using all by (force simp: image_iff)
    ultimately show ?thesis by blast
  qed
  have missing: "get_objects sb ns = Inl KeyError"
    if "\<exists>i \<in> set C. map_of ns (?key i) = None"
  proof -
    from that have "\<exists>k \<in> set (map ?key (remdups C)). map_of ns k = None" by simp
    from lookup_all_missing [OF this] show ?thesis
      by (simp add: get_objects_def objects_of_def ids)
  qed
  have ops: "set (sub_op sb ns other ns') = set C - set (idnumbers other ns')"
    "set (and_op sb ns other ns') = set C \<inter> set (idnumbers other ns')"
    using assms by (auto simp: sub_op_def and_op_def ids)
  have iter: "iter_op sb ns = iter_op (sb\<lparr>variant := Base\<rparr>) ns"
    using assms
    by (simp add: iter_op_def get_objects_def get_objects_force_all_def idnumbers_def
        priv_idnumbers_def objects_of_def parent_keypath_def)
  from ids found missing ops iter show ?thesis by simp
qed

theorem narrow_reads_witness:
  "variant ex_narrow = Narrow [''3'', ''7'']
   \<and> set (idnumbers ex_narrow ex_tree5) = set [''3'', ''7'']
   \<and> (\<exists>objs. get_objects ex_narrow ex_tree5 = Inr objs
         \<and> set objs = {d. \<exists>i \<in> set [''3'', ''7''].
              map_of ex_tree5
                (join [path_delim ex_narrow] [branchname ex_narrow, subbranchname ex_narrow, i])
                = Some (Some d)})
   \<and> (\<exists>i \<in> set [''3'', ''7''].
         map_of ex_tree (join [path_delim ex_narrow] [branchname ex_narrow, subbranchname ex_narrow, i])
           = None)
   \<and> get_objects ex_narrow ex_tree = Inl KeyError
   \<and> iter_op ex_narrow ex_tree5 = iter_op (ex_narrow\<lparr>variant := Base\<rparr>) ex_tree5"
proof -
  have v: "variant ex_narrow = Narrow [''3'', ''7'']" by (simp add: ex_narrow_def)
  have all: "\<forall>i \<in> set [''3'', ''7''].
         map_of ex_tree5 (join [path_delim ex_narrow] [branchname ex_narrow, subbranchname ex_narrow, i])
           \<noteq> None"
    by (simp add: ex_narrow_def ex_sb_def ex_tree5_def)
  have some: "\<exists>i \<in> set [''3'', ''7''].
         map_of ex_tree (join [path_delim ex_narrow] [branchname ex_narrow, subbranchname ex_narrow, i])
           = None"
    by (simp add: ex_narrow_def ex_sb_def ex_tree_def)
  note n5 = narrow_reads [OF v, of ex_tree5 ex_sb ex_tree]
  note n3 = narrow_reads [OF v, of ex_tree ex_sb ex_tree]
  have c1: "set (idnumbers ex_narrow ex_tree5) = set [''3'', ''7'']"
    by (rule n5 [THEN conjunct1])
  have c2: "\<exists>objs. get_objects ex_narrow ex_tree5 = Inr objs
         \<and> set objs = {d. \<exists>i \<in> set [''3'', ''7''].
              map_of ex_tree5
                (join [path_delim ex_narrow] [branchname ex_narrow, subbranchname ex_narrow, i])
                = Some (Some d)}"
    by (rule n5 [THEN conjunct2, THEN conjunct1, THEN mp, OF all])
  have c3: "get_objects ex_narrow ex_tree = Inl KeyError"
    by (rule n3 [THEN conjunct2, THEN conjunct2, THEN conjunct1, THEN mp, OF some])
  have c4: "iter_op ex_narrow ex_tree5 = iter_op (ex_narrow\<lparr>variant := Base\<rparr>) ex_tree5"
    by (rule n5 [THEN conjunct2, THEN conjunct2, THEN conjunct2, THEN conjunct2, THEN conjunct2])
  show ?thesis
    by (intro conjI) (rule v c1 c2 some c3 c4)+
qed

section \<open>make and the duplicate-resolution hook\<close>

text \<open>
  C6. When a node already exists at the identifier's key path, \<open>make\<close> is one invocation of
  the importer's duplicate-resolution hook on the existing payload and the new attributes: it
  returns the hook's result unchanged, and its effect on the tree and on the importer is the
  effect of that one invocation.
\<close>

theorem make_duplicate:
  assumes "get_node (nodes s) (keypath (path_delim sb) [branchname sb, subbranchname sb, i]) = Some d"
  shows "make I sb i kwargs s =
           (case resolve_duplicate I d kwargs (nodes s) (imp s) of
              (r, ns', i') \<Rightarrow> (r, s\<lparr>nodes := ns', imp := i', events := events s @ [Made i kwargs]\<rparr>))"
  using assms
  by (simp add: make_def tree_new_def get_def get_node_def node_data_def Let_def split: prod.splits)

theorem make_duplicate_witness:
  "get_node (nodes ex_run) (keypath (path_delim ex_sb) [branchname ex_sb, subbranchname ex_sb, ''2''])
     = Some (Some joanna)
   \<and> make ex_importer ex_sb ''2'' [(''name'', VStr ''Jo'')] ex_run
       = (Inr (Some joanna),
          ex_run\<lparr>imp := [(Some joanna, [(''name'', VStr ''Jo'')])],
                 events := [Made ''2'' [(''name'', VStr ''Jo'')]]\<rparr>)"
proof -
  have h: "get_node (nodes ex_run)
      (keypath (path_delim ex_sb) [branchname ex_sb, subbranchname ex_sb, ''2'']) = Some (Some joanna)"
    by (simp add: get_node_def keypath_def ex_sb_def ex_tree_def ex_run_def)
  from make_duplicate [OF h, of ex_importer "[(''name'', VStr ''Jo'')]"] h show ?thesis
    by (simp add: ex_importer_def ex_run_def)
qed

section \<open>find_all\<close>

lemma val_lower_error: "val_lower val = Inl e \<Longrightarrow> e = AttributeError"
  by (cases val) auto

lemma find_loop_error: "find_loop a v objs ret = Inl e \<Longrightarrow> e = AttributeError"
proof (induction objs arbitrary: ret)
  case Nil
  then show ?case by simp
next
  case (Cons ob objs)
  obtain kw where ob: "ob = Obj kw" by (cases ob)
  show ?case
  proof (cases "map_of kw a")
    case None
    with Cons.prems ob show ?thesis by simp
  next
    case (Some val)
    with Cons.prems Cons.IH ob show ?thesis
      by (cases val) (auto split: if_splits)
  qed
qed

lemma find_loop_absent:
  "\<exists>ob \<in> set objs. getattr ob a = Inl AttributeError \<Longrightarrow> find_loop a v objs ret = Inl AttributeError"
proof (induction objs arbitrary: ret)
  case Nil
  then show ?case by simp
next
  case (Cons ob objs)
  show ?case
  proof (cases "getattr ob a")
    case (Inl e)
    then have "find_loop a v (ob # objs) ret = Inl e" by simp
    with find_loop_error [of a v "ob # objs" ret e] show ?thesis by simp
  next
    case (Inr val)
    with Cons.prems have rest: "\<exists>ob \<in> set objs. getattr ob a = Inl AttributeError" by auto
    have "\<And>r. find_loop a v objs r = Inl AttributeError" using Cons.IH [OF rest] .
    with Inr show ?thesis
      by (cases "val_lower val") (auto dest: val_lower_error)
  qed
qed

lemma find_loop_skip_falsy:
  "find_loop a v (filter (\<lambda>ob. \<not> (\<exists>val. getattr ob a = Inr val \<and> \<not> truthy val)) objs) ret
   = find_loop a v objs ret"
  by (induction objs arbitrary: ret) (auto split: sum.splits)

lemma find_loop_strings:
  assumes "\<forall>ob \<in> set objs. getattr ob a = Inr VNone \<or> (\<exists>s. getattr ob a = Inr (VStr s))"
  shows "find_loop a v objs ret =
           Inr (ret @ filter (\<lambda>ob. \<exists>s. getattr ob a = Inr (VStr s) \<and> s \<noteq> []
                                      \<and> startswith (lower s) (lower v)) objs)"
  using assms by (induction objs arbitrary: ret) (auto split: sum.splits)


text \<open>
  C9 as stated fails: \<open>getattr(obj, a)\<close> has no default, so an object without the attribute
  makes \<open>find_all\<close> raise.
\<close>

theorem find_all_absent_counterexample:
  "get_objects ex_sb ex_tree_noattr = Inr [john, Obj [(''age'', VInt 5)]]
   \<and> getattr (Obj [(''age'', VInt 5)]) ''name'' = Inl AttributeError
   \<and> find_all ex_sb ex_tree_noattr ''name: jo'' = Inl AttributeError"
  by code_simp

text \<open>
  C9, amended. An object whose attribute is present but falsy is skipped silently: \<open>find_all\<close>
  gives what it gives with those objects left out. An object on which the attribute is absent
  makes \<open>find_all\<close> raise \<open>AttributeError\<close>.
\<close>

theorem find_all_absent_attribute:
  assumes "map strip (split CHR '':'' search_string) = [a, v]"
    and "get_objects sb ns = Inr objs"
  shows "((\<exists>ob \<in> set objs. getattr ob a = Inl AttributeError)
            \<longrightarrow> find_all sb ns search_string = Inl AttributeError)
       \<and> find_all sb ns search_string =
           (case find_loop a v
                   (filter (\<lambda>ob. \<not> (\<exists>val. getattr ob a = Inr val \<and> \<not> truthy val)) objs) [] of
              Inl e \<Rightarrow> Inl e
            | Inr ret \<Rightarrow> Inr (if ret \<noteq> [] then Some ret else None))"
proof -
  have unfolded: "find_all sb ns search_string =
           (case find_loop a v objs [] of
              Inl e \<Rightarrow> Inl e
            | Inr ret \<Rightarrow> Inr (if ret \<noteq> [] then Some ret else None))"
    using assms by (simp add: find_all_def)
  show ?thesis
    unfolding unfolded find_loop_skip_falsy by (simp add: find_loop_absent)
qed

theorem find_all_absent_attribute_witness:
  "map strip (split CHR '':'' ''name: jo'') = [''name'', ''jo'']
   \<and> get_objects ex_sb ex_tree_noattr = Inr [john, Obj [(''age'', VInt 5)]]
   \<and> (\<exists>ob \<in> set [john, Obj [(''age'', VInt 5)]]. getattr ob ''name'' = Inl AttributeError)
   \<and> find_all ex_sb ex_tree_noattr ''name: jo'' = Inl AttributeError
   \<and> get_objects ex_sb ex_tree_falsy = Inr [john, Obj [(''name'', VNone)]]
   \<and> find_all ex_sb ex_tree_falsy ''name: jo'' = Inr (Some [john])"
proof -
  have q: "map strip (split CHR '':'' ''name: jo'') = [''name'', ''jo'']" by code_simp
  have g: "get_objects ex_sb ex_tree_noattr = Inr [john, Obj [(''age'', VInt 5)]]" by code_simp
  have a: "\<exists>ob \<in> set [john, Obj [(''age'', VInt 5)]]. getattr ob ''name'' = Inl AttributeError"
    by (simp add: john_def)
  have g': "get_objects ex_sb ex_tree_falsy = Inr [john, Obj [(''name'', VNone)]]" by code_simp
  have l: "find_loop ''name'' ''jo''
     (filter (\<lambda>ob. \<not> (\<exists>val. getattr ob ''name'' = Inr val \<and> \<not> truthy val))
        [john, Obj [(''name'', VNone)]]) [] = Inr [john]"
  proof -
    have "lower ''John'' = ''john''" "lower ''jo'' = ''jo''" by code_simp+
    then show ?thesis by (simp add: john_def startswith_def)
  qed
  from find_all_absent_attribute [OF q g] a
  have r1: "find_all ex_sb ex_tree_noattr ''name: jo'' = Inl AttributeError" by blast
  from find_all_absent_attribute [OF q g'] l
  have r2: "find_all ex_sb ex_tree_falsy ''name: jo'' = Inr (Some [john])" by simp
  show ?thesis by (intro conjI) (rule q g a r1 g' r2)+
qed

text \<open>
  C8 as stated fails at an empty search value: an object whose attribute is the empty string
  starts with it, but the source's test \<open>if val and ...\<close> skips it.
\<close>

theorem find_all_blank_counterexample:
  "get_objects ex_sb ex_tree_blank = Inr [Obj [(''name'', VStr [])]]
   \<and> map strip (split CHR '':'' ''name:'') = [''name'', []]
   \<and> find_all_spec ''name'' [] [Obj [(''name'', VStr [])]] = Some [Obj [(''name'', VStr [])]]
   \<and> find_all ex_sb ex_tree_blank ''name:'' = Inr None"
  by code_simp

text \<open>
  C8, amended. When every object of the subbranch has the named attribute and it holds a
  string or \<open>None\<close>, \<open>find_all\<close> returns, in iteration order, exactly the objects whose
  attribute is a non-empty string that case-insensitively starts with the value, and \<open>None\<close>
  when there is none; for a non-empty value these are exactly the objects whose attribute
  starts with it. Over John, Joanna and Mark, \<open>name: jo\<close> gives John and Joanna.
\<close>

theorem find_all_prefix_match:
  assumes "map strip (split CHR '':'' search_string) = [a, v]"
    and "get_objects sb ns = Inr objs"
    and "\<forall>ob \<in> set objs. getattr ob a = Inr VNone \<or> (\<exists>s. getattr ob a = Inr (VStr s))"
  shows "find_all sb ns search_string =
           Inr (let ret = filter (\<lambda>ob. \<exists>s. getattr ob a = Inr (VStr s) \<and> s \<noteq> []
                                           \<and> startswith (lower s) (lower v)) objs
                in if ret = [] then None else Some ret)
       \<and> (v \<noteq> [] \<longrightarrow> find_all sb ns search_string = Inr (find_all_spec a v objs))"
proof -
  let ?P = "\<lambda>ob. \<exists>s. getattr ob a = Inr (VStr s) \<and> s \<noteq> [] \<and> startswith (lower s) (lower v)"
  let ?Q = "\<lambda>ob. case getattr ob a of Inr (VStr s) \<Rightarrow> startswith (lower s) (lower v) | _ \<Rightarrow> False"
  have main: "find_all sb ns search_string =
           Inr (let ret = filter ?P objs in if ret = [] then None else Some ret)"
    using assms(1,2) find_loop_strings [OF assms(3), of v "[]"]
    by (simp add: find_all_def Let_def)
  have same: "filter ?P objs = filter ?Q objs" if "v \<noteq> []"
  proof (rule filter_cong [OF refl])
    fix ob assume "ob \<in> set objs"
    with assms(3) have "getattr ob a = Inr VNone \<or> (\<exists>s. getattr ob a = Inr (VStr s))" by blast
    then show "?P ob = ?Q ob"
      using that by (auto simp: startswith_def lower_def)
  qed
  from main same show ?thesis by (auto simp: find_all_spec_def Let_def)
qed

theorem find_all_prefix_match_witness:
  "map strip (split CHR '':'' ''name: jo'') = [''name'', ''jo'']
   \<and> get_objects ex_sb ex_tree = Inr [john, joanna, mark]
   \<and> ''jo'' \<noteq> []
   \<and> find_all ex_sb ex_tree ''name: jo'' = Inr (find_all_spec ''name'' ''jo'' [john, joanna, mark])
   \<and> find_all_spec ''name'' ''jo'' [john, joanna, mark] = Some [john, joanna]"
proof -
  have q: "map strip (split CHR '':'' ''name: jo'') = [''name'', ''jo'']" by code_simp
  have g: "get_objects ex_sb ex_tree = Inr [john, joanna, mark]" by code_simp
  have t: "\<forall>ob \<in> set [john, joanna, mark].
         getattr ob ''name'' = Inr VNone \<or> (\<exists>s. getattr ob ''name'' = Inr (VStr s))"
    by (simp add: john_def joanna_def mark_def)
  have n: "''jo'' \<noteq> []" by simp
  have r: "find_all ex_sb ex_tree ''name: jo'' = Inr (find_all_spec ''name'' ''jo'' [john, joanna, mark])"
    by (rule find_all_prefix_match [OF q g t, THEN conjunct2, THEN mp, OF n])
  have e: "find_all_spec ''name'' ''jo'' [john, joanna, mark] = Some [john, joanna]" by code_simp
  show ?thesis by (intro conjI) (rule q g n r e)+
qed

section \<open>The import run: identifiers\<close>

lemma delete_absent: "map_of al k = None \<Longrightarrow> AList.delete k al = al"
  by (induction al) (auto split: if_splits)

lemma make_events:
  assumes "make I sb i kwargs s = (r, s')"
  shows "events s' = events s @ [Made i kwargs] \<and> index s' = index s \<and> temp s' = temp s"
  using assms
  by (auto simp: make_def Let_def split: sum.splits error.splits prod.splits)

lemma process_kwargs_event:
  assumes "process_kwargs I sb kwargs_in s = (Inr (), s')"
    and "kwargs_preprocessor I kwargs_in = Some kwargs"
  shows "\<exists>ev. events s' = events s @ [ev]
            \<and> event_attrs ev = AList.delete ''idnumber'' kwargs
            \<and> (case map_of kwargs ''idnumber'' of
                 None \<Rightarrow> event_id ev = str_nat (index s) \<and> index s' = Suc (index s)
               | Some v \<Rightarrow> v = VStr (event_id ev) \<and> index s' = index s)"
proof (cases "map_of kwargs ''idnumber''")
  case None
  show ?thesis
  proof (cases "has_list_value kwargs")
    case True
    with assms None show ?thesis
      by (auto simp: process_kwargs_def delete_absent)
  next
    case False
    obtain r s2 where m: "make I sb (str_nat (index s)) kwargs (s\<lparr>index := index s + 1\<rparr>) = (r, s2)"
      by (cases "make I sb (str_nat (index s)) kwargs (s\<lparr>index := index s + 1\<rparr>)")
    with assms None False have "s' = s2"
      by (auto simp: process_kwargs_def split: sum.splits)
    with make_events [OF m] None show ?thesis
      by (auto simp: delete_absent)
  qed
next
  case (Some v)
  with assms obtain i where v: "v = VStr i"
    by (cases v) (auto simp: process_kwargs_def)
  show ?thesis
  proof (cases "has_list_value kwargs")
    case True
    with assms Some v show ?thesis
      by (auto simp: process_kwargs_def)
  next
    case False
    obtain r s2 where m: "make I sb i (AList.delete ''idnumber'' kwargs) s = (r, s2)"
      by (cases "make I sb i (AList.delete ''idnumber'' kwargs) s")
    with assms Some v False have "s' = s2"
      by (auto simp: process_kwargs_def split: sum.splits)
    with make_events [OF m] Some v show ?thesis
      by auto
  qed
qed

lemma drain_events:
  assumes "drain I sb records s = (Inr (), s')"
  shows "\<exists>evs. events s' = events s @ evs
           \<and> map (\<lambda>ev. VStr (event_id ev)) evs = expected_ids (index s) (kept I records)
           \<and> map event_attrs evs = map (AList.delete ''idnumber'') (kept I records)"
  using assms
proof (induction records arbitrary: s)
  case Nil
  then show ?case by (simp add: kept_def List.map_filter_simps)
next
  case (Cons kwargs_in rest)
  from Cons.prems obtain s1 where
    step: "process_kwargs I sb kwargs_in s = (Inr (), s1)" and
    more: "drain I sb rest s1 = (Inr (), s')"
    by (auto split: prod.splits sum.splits)
  from Cons.IH [OF more] obtain evs where
    evs: "events s' = events s1 @ evs"
      "map (\<lambda>ev. VStr (event_id ev)) evs = expected_ids (index s1) (kept I rest)"
      "map event_attrs evs = map (AList.delete ''idnumber'') (kept I rest)"
    by blast
  show ?case
  proof (cases "kwargs_preprocessor I kwargs_in")
    case None
    with step have "s1 = s" by (simp add: process_kwargs_def)
    with evs None show ?thesis by (simp add: kept_def List.map_filter_simps)
  next
    case (Some kwargs)
    from process_kwargs_event [OF step Some] obtain ev where
      ev: "events s1 = events s @ [ev]"
        "event_attrs ev = AList.delete ''idnumber'' kwargs"
        "case map_of kwargs ''idnumber'' of
           None \<Rightarrow> event_id ev = str_nat (index s) \<and> index s1 = Suc (index s)
         | Some v \<Rightarrow> v = VStr (event_id ev) \<and> index s1 = index s"
      by blast
    have k: "kept I (kwargs_in # rest) = kwargs # kept I rest"
      using Some by (simp add: kept_def List.map_filter_simps)
    have "events s' = events s @ (ev # evs)" using evs(1) ev(1) by simp
    moreover have "map (\<lambda>ev. VStr (event_id ev)) (ev # evs)
                     = expected_ids (index s) (kept I (kwargs_in # rest))"
      using ev(3) evs(2) unfolding k by (cases "map_of kwargs ''idnumber''") auto
    moreover have "map event_attrs (ev # evs)
                     = map (AList.delete ''idnumber'') (kept I (kwargs_in # rest))"
      using ev(2) evs(3) unfolding k by simp
    ultimately show ?thesis by blast
  qed
qed

lemma pos_items_events:
  "pos_items I sb i kwargs_list prepared s = (r, s') \<Longrightarrow> \<exists>later. events s' = events s @ later"
proof (induction kwargs_list arbitrary: prepared s)
  case Nil
  then show ?case by simp
next
  case (Cons item kwargs_list)
  show ?case
  proof (cases "merge_item prepared item")
    case (Inl e)
    with Cons.prems show ?thesis by simp
  next
    case (Inr p)
    obtain r1 s1 where m: "make I sb i p s = (r1, s1)" by (cases "make I sb i p s")
    from make_events [OF m] have e1: "events s1 = events s @ [Made i p]" by simp
    show ?thesis
    proof (cases r1)
      case (Inl e)
      with Cons.prems Inr m e1 show ?thesis by auto
    next
      case (Inr ob)
      with Cons.prems \<open>merge_item prepared item = Inr p\<close> m
      have "pos_items I sb i kwargs_list p s1 = (r, s')" by simp
      from Cons.IH [OF this] e1 show ?thesis by auto
    qed
  qed
qed

lemma pos_idnumbers_events:
  "pos_idnumbers I sb t s = (r, s') \<Longrightarrow> \<exists>later. events s' = events s @ later"
proof (induction t arbitrary: s)
  case Nil
  then show ?case by simp
next
  case (Cons entry t)
  obtain i kwargs_list where entry: "entry = (i, kwargs_list)" by (cases entry)
  obtain r1 s1 where p: "pos_items I sb i kwargs_list [] s = (r1, s1)"
    by (cases "pos_items I sb i kwargs_list [] s")
  from pos_items_events [OF p] obtain l1 where l1: "events s1 = events s @ l1" by blast
  show ?case
  proof (cases r1)
    case (Inl e)
    with Cons.prems entry p l1 show ?thesis by auto
  next
    case (Inr pr)
    with Cons.prems entry p have "pos_idnumbers I sb t s1 = (r, s')" by simp
    from Cons.IH [OF this] l1 show ?thesis by auto
  qed
qed

lemma expected_ids_unnamed:
  "\<forall>kwargs \<in> set records. map_of kwargs ''idnumber'' = None \<Longrightarrow>
     expected_ids n records = map (\<lambda>k. VStr (str_nat k)) [n..<n + length records]"
proof (induction records arbitrary: n)
  case Nil
  then show ?case by simp
next
  case (Cons kwargs rest)
  then have "expected_ids (Suc n) rest = map (\<lambda>k. VStr (str_nat k)) [Suc n..<Suc n + length rest]"
    by simp
  moreover have "[n..<n + length (kwargs # rest)] = n # [Suc n..<Suc n + length rest]"
    by (simp add: upt_conv_Cons del: upt_Suc)
  ultimately show ?case using Cons.prems by (simp del: upt_Suc)
qed


text \<open>
  C10. In a run of \<open>__pos__\<close> that completes, the preprocessed records are handled in read
  order, one event each (put into \<open>_temp\<close> or passed to \<open>make\<close>): a record with an explicit
  \<open>idnumber\<close> uses that value as its identifier, a record without one gets the next number of
  a counter that starts at 0 for the run, as a decimal string, and the mapping that is
  buffered or passed on no longer has the \<open>idnumber\<close> key. With no explicit identifiers the
  identifiers are 0, 1, 2, ... in read order.
\<close>

theorem import_identifiers:
  assumes "pos_op I sb s0 = (Inr (), s')"
  shows "\<exists>evs later. events s' = events s0 @ evs @ later
      \<and> map (\<lambda>ev. VStr (event_id ev)) evs = expected_ids 0 (kept I (reader I))
      \<and> map event_attrs evs = map (AList.delete ''idnumber'') (kept I (reader I))
      \<and> ((\<forall>kwargs \<in> set (kept I (reader I)). map_of kwargs ''idnumber'' = None)
          \<longrightarrow> map event_id evs = map str_nat [0..<length (kept I (reader I))])"
proof -
  let ?s = "s0\<lparr>temp := [], index := 0\<rparr>"
  obtain r1 s1 where d: "drain I sb (reader I) ?s = (r1, s1)"
    by (cases "drain I sb (reader I) ?s")
  with assms have r1: "r1 = Inr ()"
    by (cases r1) (auto simp: pos_op_def Let_def)
  from drain_events [OF d [unfolded r1]] obtain evs where
    evs: "events s1 = events s0 @ evs"
      "map (\<lambda>ev. VStr (event_id ev)) evs = expected_ids 0 (kept I (reader I))"
      "map event_attrs evs = map (AList.delete ''idnumber'') (kept I (reader I))"
    by auto
  obtain r2 s2 where
    f: "(if length (temp s1) > 0 then pos_idnumbers I sb (temp s1) s1 else (Inr (), s1)) = (r2, s2)"
    by (cases "if length (temp s1) > 0 then pos_idnumbers I sb (temp s1) s1 else (Inr (), s1)")
  have "\<exists>later. events s2 = events s1 @ later"
  proof (cases "length (temp s1) > 0")
    case True
    with f have "pos_idnumbers I sb (temp s1) s1 = (r2, s2)" by simp
    from pos_idnumbers_events [OF this] show ?thesis .
  next
    case False
    with f show ?thesis by simp
  qed
  then obtain later where later: "events s2 = events s1 @ later" by blast
  from assms d r1 f have "events s' = events s2"
    by (cases r2) (auto simp: pos_op_def Let_def split: option.splits if_splits)
  with later evs(1) have e: "events s' = events s0 @ evs @ later" by simp
  have unnamed: "map event_id evs = map str_nat [0..<length (kept I (reader I))]"
    if "\<forall>kwargs \<in> set (kept I (reader I)). map_of kwargs ''idnumber'' = None"
  proof -
    from expected_ids_unnamed [OF that, of 0] evs(2)
    have "map (\<lambda>ev. VStr (event_id ev)) evs
            = map (\<lambda>k. VStr (str_nat k)) [0..<length (kept I (reader I))]"
      by simp
    then have "map VStr (map event_id evs)
            = map VStr (map str_nat [0..<length (kept I (reader I))])"
      by (simp add: comp_def)
    moreover have "inj VStr" by (rule injI) simp
    ultimately show ?thesis by (simp only: inj_map_eq_map)
  qed
  from e evs(2,3) unnamed show ?thesis by blast
qed



theorem import_identifiers_witness:
  "fst (pos_op ex_importer3 ex_sb ex_run0) = Inr ()
   \<and> events (snd (pos_op ex_importer3 ex_sb ex_run0))
       = [Made ''0'' [(''name'', VStr ''Ann'')], Made ''1'' [(''name'', VStr ''Bob'')],
          Made ''2'' [(''name'', VStr ''Cyd'')]]
   \<and> (\<exists>evs later. events (snd (pos_op ex_importer3 ex_sb ex_run0)) = events ex_run0 @ evs @ later
         \<and> map event_id evs = [''0'', ''1'', ''2''])"
proof -
  have ok: "fst (pos_op ex_importer3 ex_sb ex_run0) = Inr ()" by code_simp
  then have run: "pos_op ex_importer3 ex_sb ex_run0 = (Inr (), snd (pos_op ex_importer3 ex_sb ex_run0))"
    by (metis prod.collapse)
  have k: "kept ex_importer3 (reader ex_importer3) = ex_records3" by code_simp
  have unnamed: "\<forall>kwargs \<in> set (kept ex_importer3 (reader ex_importer3)).
                   map_of kwargs ''idnumber'' = None"
    unfolding k by (simp add: ex_records3_def)
  have ids: "map str_nat [0..<length (kept ex_importer3 (reader ex_importer3))] = [''0'', ''1'', ''2'']"
    unfolding k by code_simp
  have ev: "events (snd (pos_op ex_importer3 ex_sb ex_run0))
       = [Made ''0'' [(''name'', VStr ''Ann'')], Made ''1'' [(''name'', VStr ''Bob'')],
          Made ''2'' [(''name'', VStr ''Cyd'')]]"
    by code_simp
  from import_identifiers [OF run] unnamed ids
  have "\<exists>evs later. events (snd (pos_op ex_importer3 ex_sb ex_run0)) = events ex_run0 @ evs @ later
         \<and> map event_id evs = [''0'', ''1'', ''2'']"
    by metis
  with ok ev show ?thesis by (intro conjI)
qed

section \<open>The import run: merging fragments\<close>

text \<open>
  C1. On the three fragments of spec 8 for identifier 5, \<open>__pos__\<close> calls \<open>make\<close> three
  times, once after each fragment, with the attributes merged so far; the calls after the
  first reach the duplicate-resolution hook. The claim asks for one call per identifier.
\<close>

theorem pos_makes_per_fragment:
  "fst (pos_op ex_importer_frag ex_sb ex_run0) = Inr ()
   \<and> events (snd (pos_op ex_importer_frag ex_sb ex_run0))
       = [Buffered ''5'' [(''tags'', VList [''a''])],
          Buffered ''5'' [(''tags'', VList [''b'']), (''name'', VStr ''x'')],
          Buffered ''5'' [(''tags'', VList [''c'']), (''name'', VStr ''y'')],
          Made ''5'' [(''tags'', VList [''a''])],
          Made ''5'' [(''tags'', VList [''a'', ''b'']), (''name'', VStr ''x'')],
          Made ''5'' [(''tags'', VList [''a'', ''b'', ''c'']), (''name'', VStr ''y'')]]
   \<and> map snd (imp (snd (pos_op ex_importer_frag ex_sb ex_run0)))
       = [[(''tags'', VList [''a'', ''b'']), (''name'', VStr ''x'')],
          [(''tags'', VList [''a'', ''b'', ''c'']), (''name'', VStr ''y'')]]"
  by code_simp

end
